theory Spec2Isabelle
  imports Complex_Main "HOL-Library.Multiset" "HOL-Library.List_Lexorder" "HOL-Library.Char_ord"
begin

section \<open>ClearView: the dashboard script \<open>app.py\<close>\<close>

text \<open>
  The script stores an uploaded PDF in a temporary file, extracts its page texts, replaces
  long phrases by abbreviations, has a minimized PDF written and shows size, usage and
  reading-time figures.

  Python's \<open>int\<close> is modelled by \<^typ>\<open>int\<close>, \<open>str\<close> and \<open>bytes\<close> by \<^typ>\<open>string\<close>
  (characters are code points below 256), a \<open>dict\<close> by an association list in insertion
  order, and an exception by a value of \<open>error + 'a\<close>. The quotient of two integers
  (\<open>/\<close>) is a Python float; it is modelled by the real number it approximates, so
  rounding to the nearest double and the two-decimal formatting of the displayed figures
  (\<open>:.2f\<close>) are outside the model.
\<close>

subsection \<open>Exceptions\<close>

datatype error =
    ZeroDivisionError
  | ConfigError
  | ExtractionError
  | WriteError
  | FileNotFoundError

subsection \<open>Strings\<close>

text \<open>\<open>str.isspace\<close> on one character, for the code points below 256.\<close>

definition py_isspace :: "char \<Rightarrow> bool" where
  "py_isspace c \<longleftrightarrow>
     (let n = (of_char c :: nat)
      in (9 \<le> n \<and> n \<le> 13) \<or> (28 \<le> n \<and> n \<le> 32) \<or> n = 133 \<or> n = 160)"

text \<open>
  \<open>str.split()\<close> without arguments: runs of whitespace separate the words, and no empty
  word is produced. \<open>cur\<close> is the word being read.
\<close>

fun split_from :: "string \<Rightarrow> string \<Rightarrow> string list" where
  "split_from cur [] = (if cur = [] then [] else [cur])"
| "split_from cur (c # cs) =
     (if py_isspace c
      then (if cur = [] then split_from [] cs else cur # split_from [] cs)
      else split_from (cur @ [c]) cs)"

definition py_split :: "string \<Rightarrow> string list" where
  "py_split s = split_from [] s"

text \<open>\<open>sep.join(xs)\<close>.\<close>

fun py_join :: "string \<Rightarrow> string list \<Rightarrow> string" where
  "py_join sep [] = []"
| "py_join sep [x] = x"
| "py_join sep (x # y # ys) = x @ sep @ py_join sep (y # ys)"

definition startswith :: "string \<Rightarrow> string \<Rightarrow> bool" where
  "startswith s p \<longleftrightarrow> take (length p) s = p"

text \<open>
  \<open>s.replace(old, new)\<close>: every occurrence of \<open>old\<close>, found from the left and not
  overlapping, is replaced. With an empty \<open>old\<close> Python puts \<open>new\<close> before every
  character and at the end.
\<close>

function replace_from :: "string \<Rightarrow> string \<Rightarrow> string \<Rightarrow> string" where
  "replace_from old new [] = []"
| "replace_from old new (c # cs) =
     (if old \<noteq> [] \<and> startswith (c # cs) old
      then new @ replace_from old new (drop (length old) (c # cs))
      else c # replace_from old new cs)"
  by pat_completeness auto
termination
  by (relation "measure (\<lambda>(old, new, s). length s)") auto

definition py_replace :: "string \<Rightarrow> string \<Rightarrow> string \<Rightarrow> string" where
  "py_replace s old new =
     (if old = [] then new @ concat (map (\<lambda>c. c # new) s) else replace_from old new s)"

subsection \<open>Output path (\<open>app.py\<close>, line 99)\<close>

text \<open>\<^verbatim>\<open>output_path = input_path.replace(".pdf", "_minimized.pdf")\<close>\<close>

definition output_path_of :: "string \<Rightarrow> string" where
  "output_path_of input_path = py_replace input_path ''.pdf'' ''_minimized.pdf''"

subsection \<open>Size metric (\<open>app.py\<close>, lines 130 to 135)\<close>

text \<open>Python's true division of two integers: it raises on a zero divisor.\<close>

definition py_truediv :: "int \<Rightarrow> int \<Rightarrow> error + real" where
  "py_truediv a b = (if b = 0 then Inl ZeroDivisionError else Inr (real_of_int a / real_of_int b))"

text \<open>
  \<^verbatim>\<open>percent_reduction = ((original_size - minimized_size) / original_size * 100
                       if original_size else 0)\<close>
  The conditional expression evaluates the test first and the division only when the
  test is true.
\<close>

definition percent_reduction :: "int \<Rightarrow> int \<Rightarrow> error + real" where
  "percent_reduction original_size minimized_size =
     (if original_size \<noteq> 0
      then (case py_truediv (original_size - minimized_size) original_size of
              Inl e \<Rightarrow> Inl e
            | Inr q \<Rightarrow> Inr (q * 100))
      else Inr 0)"

subsection \<open>Usage records and their presentation (\<open>app.py\<close>, lines 155 to 186 and 203 to 217)\<close>

text \<open>
  \<open>used_abbr\<close> maps a full form to \<open>{"abbr": ..., "count": ...}\<close>; the association list
  keeps the insertion order that \<open>.items()\<close> and \<open>.values()\<close> iterate in.
\<close>

record usage_entry =
  abbr :: string
  count :: int

type_synonym usage_record = "(string \<times> usage_entry) list"

text \<open>
  \<open>sorted(xs, key=key, reverse=True)\<close>. Python's sort is stable, and \<open>reverse=True\<close>
  keeps the original order of elements with equal keys: the list is reversed, sorted
  stably in ascending order and reversed again.
\<close>

definition py_sorted_reverse :: "('a \<Rightarrow> int) \<Rightarrow> 'a list \<Rightarrow> 'a list" where
  "py_sorted_reverse key xs = rev (sort_key key (rev xs))"

text \<open>
  \<^verbatim>\<open>sorted_abbr = sorted(used_abbr.items(), key=lambda x: x[1]["count"], reverse=True)[:10]\<close>
\<close>

definition sorted_abbr :: "usage_record \<Rightarrow> usage_record" where
  "sorted_abbr used_abbr = take 10 (py_sorted_reverse (\<lambda>x. count (snd x)) used_abbr)"

text \<open>The rows of the table: full form, abbreviation, replacement count.\<close>

definition table_data :: "usage_record \<Rightarrow> (string \<times> string \<times> int) list" where
  "table_data used_abbr = map (\<lambda>(full, data). (full, abbr data, count data)) used_abbr"

text \<open>\<^verbatim>\<open>sum(v["count"] for v in used_abbr.values())\<close>\<close>

definition total_replacements :: "usage_record \<Rightarrow> int" where
  "total_replacements used_abbr = sum_list (map (\<lambda>v. count v) (map snd used_abbr))"

subsection \<open>Reading time (\<open>app.py\<close>, lines 189 to 199)\<close>

datatype widget =
    Text_area string string
  | Metric string real
  | Bar_chart "string list" "real list"
  | Table "(string \<times> string \<times> int) list"
  | Info string
  | Download_button string string string string

text \<open>\<^verbatim>\<open>sum(len(p.split()) for p in pages)\<close>\<close>

definition words_total :: "string list \<Rightarrow> int" where
  "words_total pages = sum_list (map (\<lambda>p. int (length (py_split p))) pages)"

definition reading_time_metrics :: "string list \<Rightarrow> string list \<Rightarrow> widget list" where
  "reading_time_metrics original_text_pages replaced_pages =
     (let words_original = words_total original_text_pages;
          words_minimized = words_total replaced_pages
      in [Metric ''Original Time (min)'' (real_of_int words_original / 200),
          Metric ''Minimized Time (min)'' (real_of_int words_minimized / 200),
          Metric ''Time Saved (min)'' (real_of_int (words_original - words_minimized) / 200)])"

subsection \<open>One document-processing run (\<open>app.py\<close>, lines 89 to 226)\<close>

text \<open>
  The file system maps a path to the bytes stored there. \<open>os.path.getsize\<close> raises when
  the path does not exist.
\<close>

type_synonym file_system = "string \<rightharpoonup> string"

definition getsize :: "file_system \<Rightarrow> string \<Rightarrow> error + int" where
  "getsize fs path =
     (case fs path of None \<Rightarrow> Inl FileNotFoundError | Some bytes \<Rightarrow> Inr (int (length bytes)))"

text \<open>
  What the script takes from outside itself: the name that
  \<open>tempfile.NamedTemporaryFile\<close> picks (without the suffix), and the four functions it
  imports from \<open>modules\<close>, which are parameters here. The script uses the result
  of \<open>replace_with_abbreviations\<close> as the list of replaced page texts, and the result of
  \<open>abbreviate_pdf(..., return_used=True, ...)\<close> as the usage record; \<open>abbreviate_pdf\<close>
  also writes the file system.
\<close>

type_synonym abbreviation_dictionary = "(string \<times> string) list"

record externals =
  tmp_name :: string
  extract_text_from_pdf :: "file_system \<Rightarrow> string \<Rightarrow> error + string list"
  load_abbreviations :: "file_system \<Rightarrow> string \<Rightarrow> error + abbreviation_dictionary"
  replace_with_abbreviations :: "string list \<Rightarrow> abbreviation_dictionary \<Rightarrow> string list"
  abbreviate_pdf :: "file_system \<Rightarrow> string \<Rightarrow> string \<Rightarrow> abbreviation_dictionary \<Rightarrow> bool
      \<Rightarrow> (error + usage_record) \<times> file_system"

text \<open>
  The widgets of lines 137 to 217, in the order of the calls. Headings, separators and
  the figure objects of the two charts carry no data and are left out; a chart is its
  labels and its values. Labels are written without their pictographs.
\<close>

definition dashboard :: "string list \<Rightarrow> string list \<Rightarrow> usage_record \<Rightarrow> int \<Rightarrow> int \<Rightarrow> real
    \<Rightarrow> widget list" where
  "dashboard original_text_pages replaced_pages used_abbr original_size minimized_size reduction =
     [Text_area ''Before'' (py_join [CHR 0x0A, CHR 0x0A] (take 2 original_text_pages)),
      Text_area ''After'' (py_join [CHR 0x0A, CHR 0x0A] (take 2 replaced_pages)),
      Metric ''Original Size (KB)'' (real_of_int original_size / 1024),
      Metric ''Minimized Size (KB)'' (real_of_int minimized_size / 1024),
      Metric ''Reduction (%)'' reduction,
      Metric ''Total Replacements'' (real_of_int (total_replacements used_abbr)),
      Bar_chart [''Original'', ''Minimized'']
        [real_of_int original_size / 1024, real_of_int minimized_size / 1024]]
     @ (if used_abbr \<noteq> []
        then [Bar_chart (map fst (sorted_abbr used_abbr))
                (map (\<lambda>(k, v). real_of_int (count v)) (sorted_abbr used_abbr))]
        else [])
     @ reading_time_metrics original_text_pages replaced_pages
     @ (if used_abbr \<noteq> []
        then [Table (table_data used_abbr)]
        else [Info ''No abbreviations were used in this document.''])"

text \<open>
  The result of a run: the widgets shown so far, the exception that ended the run (if
  any) and the file system the run leaves behind. The summary text area of lines 103 to
  115 is pure string processing on the extracted text and is left out.
\<close>

record outcome =
  shown :: "widget list"
  raised :: "error option"
  disk :: file_system

text \<open>
  \<^verbatim>\<open>with tempfile.NamedTemporaryFile(delete=False, suffix=".pdf") as temp_input:
      temp_input.write(uploaded_file.read())
      input_path = temp_input.name\<close>
  creates the input file; nothing in the script removes a file.
\<close>

definition process_document :: "externals \<Rightarrow> string \<Rightarrow> bool \<Rightarrow> file_system \<Rightarrow> outcome" where
  "process_document ext uploaded include_reference_pages fs0 =
     (let input_path = tmp_name ext @ ''.pdf'';
          fs1 = fs0(input_path \<mapsto> uploaded);
          output_path = output_path_of input_path
      in case extract_text_from_pdf ext fs1 input_path of
           Inl e \<Rightarrow> \<lparr>shown = [], raised = Some e, disk = fs1\<rparr>
         | Inr original_text_pages \<Rightarrow>
       (case load_abbreviations ext fs1 ''config/abbreviations.json'' of
           Inl e \<Rightarrow> \<lparr>shown = [], raised = Some e, disk = fs1\<rparr>
         | Inr abbreviations \<Rightarrow>
       (let replaced_pages = replace_with_abbreviations ext original_text_pages abbreviations
        in case abbreviate_pdf ext fs1 input_path output_path abbreviations
                  include_reference_pages of
           (Inl e, fs2) \<Rightarrow> \<lparr>shown = [], raised = Some e, disk = fs2\<rparr>
         | (Inr used_abbr, fs2) \<Rightarrow>
       (case getsize fs2 input_path of
           Inl e \<Rightarrow> \<lparr>shown = [], raised = Some e, disk = fs2\<rparr>
         | Inr original_size \<Rightarrow>
       (case getsize fs2 output_path of
           Inl e \<Rightarrow> \<lparr>shown = [], raised = Some e, disk = fs2\<rparr>
         | Inr minimized_size \<Rightarrow>
       (case percent_reduction original_size minimized_size of
           Inl e \<Rightarrow> \<lparr>shown = [], raised = Some e, disk = fs2\<rparr>
         | Inr reduction \<Rightarrow>
       (let widgets = dashboard original_text_pages replaced_pages used_abbr
                        original_size minimized_size reduction
        in case fs2 output_path of
             None \<Rightarrow> \<lparr>shown = widgets, raised = Some FileNotFoundError, disk = fs2\<rparr>
           | Some f \<Rightarrow>
               \<lparr>shown = widgets @ [Download_button ''Download Minimized PDF'' f
                                     ''minimized_output.pdf'' ''application/pdf''],
                raised = None, disk = fs2\<rparr>)))))))"

subsection \<open>The Text Replacer\<close>

text \<open>
  \<open>replace_with_abbreviations\<close> is defined in \<open>modules/replacer.py\<close>, which is not among
  the sources; only its call in \<open>app.py\<close> (line 120) is. The definitions of this
  subsection follow the specification of the Text Replacer: one pass over each page from
  the left; at each position the longest full form that matches there, case-insensitively
  and on whole-word boundaries, is replaced by its abbreviation and counted; matches do
  not overlap; the counts of all pages are summed into one usage record.
\<close>

text \<open>Modelled from the spec: the characters that make up a word (letters, digits and
  the underscore), for the whole-word boundaries of the missing \<open>replace_with_abbreviations\<close>.\<close>

definition is_word_char :: "char \<Rightarrow> bool" where
  "is_word_char c \<longleftrightarrow>
     (let n = (of_char c :: nat)
      in (48 \<le> n \<and> n \<le> 57) \<or> (65 \<le> n \<and> n \<le> 90) \<or> n = 95 \<or> (97 \<le> n \<and> n \<le> 122))"

text \<open>Modelled from the spec: case-insensitive detection in the missing
  \<open>replace_with_abbreviations\<close>; two characters are the same when their folded codes are
  (an upper-case letter folds to its lower-case code).\<close>

definition casefold :: "char \<Rightarrow> nat" where
  "casefold c = (let n = (of_char c :: nat) in if 65 \<le> n \<and> n \<le> 90 then n + 32 else n)"

text \<open>Modelled from the spec: the text begins with the full form, case-insensitively
  (missing \<open>replace_with_abbreviations\<close>).\<close>

fun starts_with_ci :: "string \<Rightarrow> string \<Rightarrow> bool" where
  "starts_with_ci [] text = True"
| "starts_with_ci (k # ks) [] = False"
| "starts_with_ci (k # ks) (c # cs) = (casefold k = casefold c \<and> starts_with_ci ks cs)"

text \<open>Modelled from the spec: the text goes on with a word character, so that a match
  ending here would end inside a larger word (missing \<open>replace_with_abbreviations\<close>).\<close>

definition word_follows :: "string \<Rightarrow> bool" where
  "word_follows text = (case text of [] \<Rightarrow> False | c # _ \<Rightarrow> is_word_char c)"

text \<open>Modelled from the spec: a full form matches at the current position of the
  missing \<open>replace_with_abbreviations\<close> when it is not empty, the text begins with it
  case-insensitively, and neither the character before (\<open>prev_word\<close> tells whether it is a
  word character) nor the character after the match is a word character: "must not match
  inside a larger word".\<close>

definition matches_here :: "bool \<Rightarrow> string \<Rightarrow> string \<Rightarrow> bool" where
  "matches_here prev_word full text \<longleftrightarrow>
     full \<noteq> [] \<and> \<not> prev_word \<and> starts_with_ci full text
     \<and> \<not> word_follows (drop (length full) text)"

text \<open>Modelled from the spec: among the entries that match at the current position the
  missing \<open>replace_with_abbreviations\<close> prefers the longest full form; of several longest
  ones the first of the dictionary is taken.\<close>

fun best_match :: "abbreviation_dictionary \<Rightarrow> bool \<Rightarrow> string \<Rightarrow> (string \<times> string) option" where
  "best_match [] prev_word text = None"
| "best_match ((full, ab) # rest) prev_word text =
     (case best_match rest prev_word text of
        None \<Rightarrow> if matches_here prev_word full text then Some (full, ab) else None
      | Some (full', ab') \<Rightarrow>
          if matches_here prev_word full text \<and> length full' \<le> length full
          then Some (full, ab) else Some (full', ab'))"

text \<open>Modelled from the spec: one substitution more for a full form in the usage record
  of the missing \<open>replace_with_abbreviations\<close>; an entry exists from its first substitution
  on.\<close>

fun bump :: "string \<Rightarrow> string \<Rightarrow> usage_record \<Rightarrow> usage_record" where
  "bump full ab [] = [(full, \<lparr>abbr = ab, count = 1\<rparr>)]"
| "bump full ab ((k, e) # rest) =
     (if k = full then (k, e\<lparr>count := count e + 1\<rparr>) # rest else (k, e) # bump full ab rest)"

text \<open>Modelled from the spec: the pass of the missing \<open>replace_with_abbreviations\<close> over
  one page. At a match the abbreviation is written, the usage is counted and the pass
  goes on behind the match; otherwise the character is copied.\<close>

function scan :: "abbreviation_dictionary \<Rightarrow> bool \<Rightarrow> string \<Rightarrow> usage_record
    \<Rightarrow> string \<times> usage_record" where
  "scan D prev_word [] usage = ([], usage)"
| "scan D prev_word (c # cs) usage =
     (case best_match D prev_word (c # cs) of
        None \<Rightarrow>
          (case scan D (is_word_char c) cs usage of
             (out, usage') \<Rightarrow> (c # out, usage'))
      | Some (full, ab) \<Rightarrow>
          (case scan D (is_word_char ((c # cs) ! (length full - 1)))
                  (drop (length full) (c # cs)) (bump full ab usage) of
             (out, usage') \<Rightarrow> (ab @ out, usage')))"
  by pat_completeness auto
termination
proof (relation "measure (\<lambda>(D, prev_word, text, usage). length text)")
  fix D :: abbreviation_dictionary and prev_word c cs and usage :: usage_record and hit full ab
  assume hit: "best_match D prev_word (c # cs) = Some hit" "(full, ab) = hit"
  have "best_match D prev_word (c # cs) = Some (f, a) \<Longrightarrow> f \<noteq> []" for f a
    by (induction D arbitrary: f a)
       (auto simp: matches_here_def split: option.splits if_splits)
  with hit have "full \<noteq> []" by metis
  then show "((D, is_word_char ((c # cs) ! (length full - 1)), drop (length full) (c # cs),
              bump full ab usage), D, prev_word, c # cs, usage)
        \<in> measure (\<lambda>(D, prev_word, text, usage). length text)"
    by (cases full) simp_all
qed simp_all

text \<open>Modelled from the spec: the missing \<open>replace_with_abbreviations\<close> processes each
  page on its own, from its beginning, and sums the counts into one usage record.\<close>

fun replace_pages :: "abbreviation_dictionary \<Rightarrow> string list \<Rightarrow> usage_record
    \<Rightarrow> string list \<times> usage_record" where
  "replace_pages D [] usage = ([], usage)"
| "replace_pages D (p # ps) usage =
     (case scan D False p usage of
        (p', usage') \<Rightarrow>
          (case replace_pages D ps usage' of
             (ps', usage'') \<Rightarrow> (p' # ps', usage'')))"

text \<open>Modelled from the spec: the Text Replacer (the missing
  \<open>replace_with_abbreviations\<close>): from the page texts and the dictionary, the new page
  texts and the usage record, built fresh for each run.\<close>

definition text_replacer :: "string list \<Rightarrow> abbreviation_dictionary
    \<Rightarrow> string list \<times> usage_record" where
  "text_replacer pages D = replace_pages D pages []"

text \<open>
  The specification does not say whether the entries are tried together at each position
  or one entry after the other. The second reading is modelled as well, for the inputs
  on which the two could differ: the entries are applied in turn, longest full form first
  (entries of equal length in the order of the dictionary), each in one pass over the
  page with the same matching.
\<close>





subsection \<open>Notions of the specification\<close>

text \<open>
  The whitespace-separated word count of a text: a word begins wherever a character that
  is not whitespace follows a whitespace character or the beginning of the text.
\<close>

definition whitespace_word_count :: "string \<Rightarrow> nat" where
  "whitespace_word_count s =
     length (filter (\<lambda>(p, c). py_isspace p \<and> \<not> py_isspace c) (zip (CHR '' '' # s) s))"

text \<open>
  The order the specification asks of the listed triples: descending count, and full
  forms in ascending lexicographic order among equal counts.
\<close>

definition claimed_order :: "(string \<times> string \<times> int) list \<Rightarrow> bool" where
  "claimed_order rows \<longleftrightarrow>
     sorted_wrt (\<lambda>(full1, ab1, n1) (full2, ab2, n2). n2 < n1 \<or> (n1 = n2 \<and> full1 \<le> full2)) rows"

text \<open>Two usage records diverge when their sets of (full form, count) pairs differ.\<close>

definition divergent :: "usage_record \<Rightarrow> usage_record \<Rightarrow> bool" where
  "divergent u1 u2 \<longleftrightarrow>
     set (map (\<lambda>(full, e). (full, count e)) u1) \<noteq> set (map (\<lambda>(full, e). (full, count e)) u2)"

text \<open>The widgets that are computed from the replaced page texts.\<close>

definition replacer_dependent :: "widget \<Rightarrow> bool" where
  "replacer_dependent w \<longleftrightarrow>
     (case w of
        Text_area label text \<Rightarrow> label = ''After''
      | Metric label x \<Rightarrow> label = ''Minimized Time (min)'' \<or> label = ''Time Saved (min)''
      | _ \<Rightarrow> False)"

text \<open>
  A full form stands as a whole word (or phrase) at index \<open>i\<close> of a text: the text has
  the full form there, case-insensitively, the character before (if any) is not a word
  character and the character after (if any) is not a word character.
\<close>

definition whole_word_at :: "string \<Rightarrow> string \<Rightarrow> nat \<Rightarrow> bool" where
  "whole_word_at full text i \<longleftrightarrow>
     full \<noteq> [] \<and> i + length full \<le> length text
     \<and> map casefold (take (length full) (drop i text)) = map casefold full
     \<and> (i = 0 \<or> \<not> is_word_char (text ! (i - 1)))
     \<and> (i + length full = length text \<or> \<not> is_word_char (text ! (i + length full)))"

text \<open>
  Substitutions (index, full form, abbreviation) of entries of the dictionary, from
  index \<open>pos\<close> on, from left to right and without overlap, each at an index where its
  full form stands as a whole word.
\<close>

fun placed :: "abbreviation_dictionary \<Rightarrow> nat \<Rightarrow> string \<Rightarrow> (nat \<times> string \<times> string) list
    \<Rightarrow> bool" where
  "placed D pos text [] = True"
| "placed D pos text ((i, full, ab) # subs) =
     (pos \<le> i \<and> (full, ab) \<in> set D \<and> whole_word_at full text i
      \<and> placed D (i + length full) text subs)"

text \<open>
  The text from index \<open>pos\<close> on with the substitutions carried out: the abbreviation
  takes the place of the full form, everything else is as it was.
\<close>

fun substitute :: "nat \<Rightarrow> string \<Rightarrow> (nat \<times> string \<times> string) list \<Rightarrow> string" where
  "substitute pos text [] = drop pos text"
| "substitute pos text ((i, full, ab) # subs) =
     take (i - pos) (drop pos text) @ ab @ substitute (i + length full) text subs"

text \<open>The usage record after counting each of the substitutions once.\<close>

definition counted :: "(nat \<times> string \<times> string) list \<Rightarrow> usage_record \<Rightarrow> usage_record" where
  "counted subs usage = fold (\<lambda>(i, full, ab). bump full ab) subs usage"


subsection \<open>Example inputs\<close>

text \<open>A usage record with two full forms of equal count, as the rewriter may return it.\<close>

definition usage_with_tie :: usage_record where
  "usage_with_tie =
     [(''data structure'', \<lparr>abbr = ''DS'', count = 1\<rparr>),
      (''neural network'', \<lparr>abbr = ''NN'', count = 2\<rparr>),
      (''artificial intelligence'', \<lparr>abbr = ''AI'', count = 2\<rparr>)]"

text \<open>
  An environment for a run: the extracted text of a file is its content as one page, the
  dictionary is \<open>{"cat": "C"}\<close>, the page texts are replaced by the Text Replacer above,
  and the rewriter writes the output file and reports no substitution (its rendering
  library did not find the phrase).
\<close>

definition toy_externals :: externals where
  "toy_externals =
     \<lparr>tmp_name = ''/tmp/tmpk3v9x2ab'',
      extract_text_from_pdf =
        (\<lambda>fs path. case fs path of None \<Rightarrow> Inl ExtractionError | Some bytes \<Rightarrow> Inr [bytes]),
      load_abbreviations = (\<lambda>fs path. Inr [(''cat'', ''C'')]),
      replace_with_abbreviations = (\<lambda>pages D. fst (text_replacer pages D)),
      abbreviate_pdf = (\<lambda>fs inp outp D refs. (Inr [], fs(outp \<mapsto> ''the cat sat'')))\<rparr>"

text \<open>The same environment with an extraction that fails.\<close>

definition failing_extraction :: externals where
  "failing_extraction =
     toy_externals\<lparr>extract_text_from_pdf := (\<lambda>fs path. Inl ExtractionError)\<rparr>"

subsection \<open>A condition on the dictionary\<close>

text \<open>
  An abbreviation occurs as a word in a full form when, read as a phrase to look for, it
  matches somewhere in the full form, case-insensitively and on whole-word boundaries.
  \<open>prev_word\<close> tells whether the character before the current position is a word
  character.
\<close>

fun occurs_from :: "bool \<Rightarrow> string \<Rightarrow> string \<Rightarrow> bool" where
  "occurs_from prev_word ab [] = False"
| "occurs_from prev_word ab (c # cs) =
     (matches_here prev_word ab (c # cs) \<or> occurs_from (is_word_char c) ab cs)"

definition occurs_as_word :: "string \<Rightarrow> string \<Rightarrow> bool" where
  "occurs_as_word ab full = occurs_from False ab full"

text \<open>
  A condition on the dictionary alone that is enough for replacing twice to change
  nothing more: every full form begins and ends with a word character, every
  abbreviation is a non-empty string of word characters, and no abbreviation occurs as
  a word in a full form (in particular, no abbreviation is a full form).
\<close>

definition abbreviations_apart :: "abbreviation_dictionary \<Rightarrow> bool" where
  "abbreviations_apart D \<longleftrightarrow>
     list_all (\<lambda>(full, ab). full \<noteq> [] \<and> is_word_char (hd full) \<and> is_word_char (last full)
                 \<and> ab \<noteq> [] \<and> list_all is_word_char ab) D
     \<and> list_all (\<lambda>(full, ab). list_all (\<lambda>(full', ab'). \<not> occurs_as_word ab' full) D) D"

section \<open>Properties\<close>

subsection \<open>Size metric\<close>

text \<open>
  C4. The percent reduction is (original_size - minimized_size) / original_size * 100
  whenever original_size is not zero, so that 1000 and 600 bytes give 40; it is 0 when
  original_size is 0; and for no pair of sizes does the computation raise
  ZeroDivisionError (it always returns a number).
\<close>

theorem percent_reduction_formula:
  "(original_size \<noteq> 0 \<longrightarrow>
      percent_reduction original_size minimized_size =
        Inr (real_of_int (original_size - minimized_size) / real_of_int original_size * 100))
   \<and> percent_reduction 0 minimized_size = Inr 0
   \<and> percent_reduction 1000 600 = Inr 40
   \<and> (\<exists>r. percent_reduction original_size minimized_size = Inr r)"
  by (simp add: percent_reduction_def py_truediv_def)

theorem percent_reduction_formula_witness:
  "(1000::int) \<noteq> 0
   \<and> percent_reduction 1000 600 = Inr (real_of_int (1000 - 600) / real_of_int 1000 * 100)
   \<and> percent_reduction 0 600 = Inr 0
   \<and> percent_reduction 1000 600 = Inr 40"
  using percent_reduction_formula [of 1000 600] by simp

text \<open>
  C10. The percent reduction is not clamped at zero: when the minimized file is larger
  than a non-empty original, the value is the same quotient, it is strictly negative, and
  it has no lower bound over such pairs of sizes.
\<close>

theorem percent_reduction_not_clamped:
  "(0 < original_size \<and> original_size < minimized_size \<longrightarrow>
      (\<exists>r. percent_reduction original_size minimized_size = Inr r \<and> r < 0
         \<and> r = real_of_int (original_size - minimized_size) / real_of_int original_size * 100))
   \<and> (\<forall>B. \<exists>s m r. 0 < s \<and> s < m \<and> percent_reduction s m = Inr r \<and> r < B)"
proof (intro conjI impI allI)
  assume h: "0 < original_size \<and> original_size < minimized_size"
  then have "real_of_int (original_size - minimized_size) / real_of_int original_size < 0"
    by (simp add: divide_neg_pos)
  then have "real_of_int (original_size - minimized_size) / real_of_int original_size * 100 < 0"
    by (rule mult_neg_pos) simp
  with h show "\<exists>r. percent_reduction original_size minimized_size = Inr r \<and> r < 0
         \<and> r = real_of_int (original_size - minimized_size) / real_of_int original_size * 100"
    by (simp add: percent_reduction_def py_truediv_def)
next
  fix B :: real
  define m :: int where "m = 2 + \<lceil>\<bar>B\<bar>\<rceil>"
  have m2: "2 \<le> m" by (simp add: m_def)
  have "\<bar>B\<bar> \<le> real_of_int \<lceil>\<bar>B\<bar>\<rceil>" by (rule le_of_int_ceiling)
  then have "real_of_int (1 - m) \<le> - 1 - \<bar>B\<bar>" by (simp add: m_def)
  then have "real_of_int (1 - m) * 100 \<le> (- 1 - \<bar>B\<bar>) * 100" by simp
  then have "real_of_int (1 - m) * 100 < B" by (simp add: abs_if split: if_splits)
  then have "percent_reduction 1 m = Inr (real_of_int (1 - m) * 100) \<and> real_of_int (1 - m) * 100 < B"
    by (simp add: percent_reduction_def py_truediv_def)
  with m2 show "\<exists>s m r. 0 < s \<and> s < m \<and> percent_reduction s m = Inr r \<and> r < B"
    by (intro exI [of _ 1] exI [of _ m] exI [of _ "real_of_int (1 - m) * 100"]) simp
qed

theorem percent_reduction_not_clamped_witness:
  "(0::int) < 1000 \<and> (1000::int) < 1500 \<and> percent_reduction 1000 1500 = Inr (- 50)"
proof -
  have "\<exists>r. percent_reduction 1000 1500 = Inr r \<and> r < 0
         \<and> r = real_of_int (1000 - 1500) / real_of_int 1000 * 100"
    using percent_reduction_not_clamped [of 1000 1500] by simp
  then show ?thesis by auto
qed

subsection \<open>Output path and download\<close>

text \<open>
  Where \<open>.pdf\<close> occurs in the input path only as its extension, the replacement inserts
  the marker before the extension and nowhere else.
\<close>

lemma replace_from_suffix_only:
  assumes "old \<noteq> []"
    and "\<forall>i < length base. \<not> startswith (drop i (base @ old)) old"
  shows "replace_from old new (base @ old) = base @ new"
  using assms(2)
proof (induction base)
  case Nil
  from assms(1) obtain c cs where old: "old = c # cs" by (cases old) auto
  show ?case by (simp add: old startswith_def)
next
  case (Cons b base)
  from Cons.prems have first: "\<not> startswith ((b # base) @ old) old"
    by (metis drop0 length_greater_0_conv list.discI)
  have rest: "\<forall>i < length base. \<not> startswith (drop i (base @ old)) old"
  proof (intro allI impI)
    fix i assume "i < length base"
    then have "Suc i < length (b # base)" by simp
    with Cons.prems have "\<not> startswith (drop (Suc i) ((b # base) @ old)) old" by blast
    then show "\<not> startswith (drop i (base @ old)) old" by simp
  qed
  from first Cons.IH [OF rest] show ?case by simp
qed

lemma output_path_single_extension:
  assumes "\<forall>i < length base. \<not> startswith (drop i (base @ ''.pdf'')) ''.pdf''"
  shows "output_path_of (base @ ''.pdf'') = base @ ''_minimized.pdf''"
  using replace_from_suffix_only [of "''.pdf''" base "''_minimized.pdf''"] assms
  by (simp add: output_path_of_def py_replace_def)

text \<open>
  C8. For an input path ending in \<open>.pdf\<close>, the output path is claimed to be the input
  path with \<open>_minimized\<close> inserted before the extension and nowhere else. The temporary
  directory is part of the input path; when its name contains \<open>.pdf\<close>, as in
  \<open>/tmp/scans.pdf/tmpk3v9x2ab.pdf\<close>, the computed output path has the marker in the directory
  name as well, and is not the claimed \<open>/tmp/scans.pdf/tmpk3v9x2ab_minimized.pdf\<close>.
\<close>

theorem output_path_marker_in_directory:
  "output_path_of ''/tmp/scans.pdf/tmpk3v9x2ab.pdf'' = ''/tmp/scans_minimized.pdf/tmpk3v9x2ab_minimized.pdf''
   \<and> output_path_of ''/tmp/scans.pdf/tmpk3v9x2ab.pdf'' \<noteq> ''/tmp/scans.pdf/tmpk3v9x2ab_minimized.pdf''"
  by (simp add: output_path_of_def py_replace_def startswith_def)

text \<open>
  A run that reaches its end offers the bytes of the output file for download, under the
  name \<open>minimized_output.pdf\<close> and with the MIME type \<open>application/pdf\<close>.
\<close>

lemma download_offered:
  assumes "raised (process_document ext uploaded flag fs0) = None"
  shows "\<exists>f. disk (process_document ext uploaded flag fs0)
                 (output_path_of (tmp_name ext @ ''.pdf'')) = Some f
             \<and> last (shown (process_document ext uploaded flag fs0))
                 = Download_button ''Download Minimized PDF'' f
                     ''minimized_output.pdf'' ''application/pdf''"
  using assms
  by (auto simp: process_document_def Let_def split: sum.splits prod.splits option.splits)

subsection \<open>Reading time\<close>

lemma word_starts_head:
  "py_isspace p = py_isspace q \<Longrightarrow>
     length (filter (\<lambda>(p, c). py_isspace p \<and> \<not> py_isspace c) (zip (p # s) s))
       = length (filter (\<lambda>(p, c). py_isspace p \<and> \<not> py_isspace c) (zip (q # s) s))"
  by (cases s) simp_all

lemma length_split_from:
  "length (split_from cur s) =
     (if cur = [] then 0 else 1)
     + length (filter (\<lambda>(p, c). py_isspace p \<and> \<not> py_isspace c)
         (zip ((if cur = [] then CHR '' '' else CHR ''a'') # s) s))"
proof (induction s arbitrary: cur)
  case Nil
  show ?case by simp
next
  case (Cons c cs)
  have sp: "py_isspace CHR '' ''" and nsp: "\<not> py_isspace CHR ''a''"
    by (simp_all add: py_isspace_def)
  show ?case
  proof (cases "py_isspace c")
    case True
    then have eq: "length (filter (\<lambda>(p, c). py_isspace p \<and> \<not> py_isspace c) (zip (c # cs) cs))
          = length (filter (\<lambda>(p, c). py_isspace p \<and> \<not> py_isspace c) (zip (CHR '' '' # cs) cs))"
      using sp by (intro word_starts_head) simp
    show ?thesis
      using True Cons.IH [of "[]"] sp nsp eq by simp
  next
    case False
    then have eq: "length (filter (\<lambda>(p, c). py_isspace p \<and> \<not> py_isspace c) (zip (c # cs) cs))
          = length (filter (\<lambda>(p, c). py_isspace p \<and> \<not> py_isspace c) (zip (CHR ''a'' # cs) cs))"
      using nsp by (intro word_starts_head) simp
    show ?thesis
      using False Cons.IH [of "cur @ [c]"] sp nsp eq by simp
  qed
qed

lemma length_py_split: "length (py_split s) = whitespace_word_count s"
  by (simp add: py_split_def whitespace_word_count_def length_split_from)

lemma words_total_count:
  "words_total pages = int (sum_list (map whitespace_word_count pages))"
  by (induction pages) (simp_all add: words_total_def length_py_split)

text \<open>
  C9. The reading-time estimates are whitespace-separated word counts divided by 200:
  the original time from the total word count of the extracted pages, the minimized time
  from the total word count of the replaced pages, and the time saved from the
  difference of the two counts.
\<close>

theorem reading_time_word_counts:
  "reading_time_metrics original_text_pages replaced_pages =
     [Metric ''Original Time (min)''
        (real (sum_list (map whitespace_word_count original_text_pages)) / 200),
      Metric ''Minimized Time (min)''
        (real (sum_list (map whitespace_word_count replaced_pages)) / 200),
      Metric ''Time Saved (min)''
        ((real (sum_list (map whitespace_word_count original_text_pages))
          - real (sum_list (map whitespace_word_count replaced_pages))) / 200)]"
  by (simp add: reading_time_metrics_def Let_def words_total_count)

subsection \<open>Presentation of the usage record\<close>

lemma mset_py_sorted_reverse: "mset (py_sorted_reverse key xs) = mset xs"
  by (simp add: py_sorted_reverse_def)

lemma descending_py_sorted_reverse:
  "sorted_wrt (\<lambda>x y. key y \<le> key x) (py_sorted_reverse key xs)"
proof -
  have "sorted (map key (sort_key key (rev xs)))" by (rule sorted_sort_key)
  then have "sorted_wrt (\<lambda>x y. key x \<le> key y) (sort_key key (rev xs))"
    by (simp add: sorted_map)
  then show ?thesis
    by (simp add: py_sorted_reverse_def sorted_wrt_rev)
qed

lemma stable_py_sorted_reverse:
  "filter (\<lambda>x. key x = k) (py_sorted_reverse key xs) = filter (\<lambda>x. key x = k) xs"
proof -
  have "filter (\<lambda>x. key x = k) (sort_key key (rev xs)) = filter (\<lambda>x. key x = k) (rev xs)"
    by (rule sort_key_stable)
  then show ?thesis
    by (simp add: py_sorted_reverse_def rev_filter [symmetric])
qed

text \<open>
  C5, as stated, fails: the table lists the entries in the order of the usage record, and
  the chart orders them by descending count only, entries of equal count staying in the
  order of the record. For the record \<open>usage_with_tie\<close> neither listing is in the claimed
  order.
\<close>

theorem usage_listing_order_counterexample:
  "table_data usage_with_tie =
     [(''data structure'', ''DS'', 1), (''neural network'', ''NN'', 2),
      (''artificial intelligence'', ''AI'', 2)]
   \<and> \<not> claimed_order (table_data usage_with_tie)
   \<and> table_data (sorted_abbr usage_with_tie) =
     [(''neural network'', ''NN'', 2), (''artificial intelligence'', ''AI'', 2),
      (''data structure'', ''DS'', 1)]
   \<and> \<not> claimed_order (table_data (sorted_abbr usage_with_tie))"
  by (simp add: table_data_def sorted_abbr_def py_sorted_reverse_def usage_with_tie_def
      claimed_order_def)

text \<open>
  C5, amended. The table of the reporting layer lists exactly the (full form,
  abbreviation, count) triples of the usage record, in the order of the record. The chart
  of top abbreviations lists the first ten entries of the record sorted by descending
  count, where entries of equal count keep the order they have in the record.
\<close>

theorem usage_listing_order:
  "table_data used_abbr = map (\<lambda>(full, data). (full, abbr data, count data)) used_abbr
   \<and> mset (table_data used_abbr)
       = image_mset (\<lambda>(full, data). (full, abbr data, count data)) (mset used_abbr)
   \<and> (\<exists>ranked.
         sorted_abbr used_abbr = take 10 ranked
       \<and> mset ranked = mset used_abbr
       \<and> sorted_wrt (\<lambda>x y. count (snd y) \<le> count (snd x)) ranked
       \<and> (\<forall>n. filter (\<lambda>x. count (snd x) = n) ranked
                = filter (\<lambda>x. count (snd x) = n) used_abbr))"
proof (intro conjI)
  show "table_data used_abbr = map (\<lambda>(full, data). (full, abbr data, count data)) used_abbr"
    by (simp add: table_data_def)
  show "mset (table_data used_abbr)
       = image_mset (\<lambda>(full, data). (full, abbr data, count data)) (mset used_abbr)"
    by (simp add: table_data_def)
  show "\<exists>ranked.
         sorted_abbr used_abbr = take 10 ranked
       \<and> mset ranked = mset used_abbr
       \<and> sorted_wrt (\<lambda>x y. count (snd y) \<le> count (snd x)) ranked
       \<and> (\<forall>n. filter (\<lambda>x. count (snd x) = n) ranked
                = filter (\<lambda>x. count (snd x) = n) used_abbr)"
  proof (intro exI [of _ "py_sorted_reverse (\<lambda>x. count (snd x)) used_abbr"] conjI allI)
    show "sorted_abbr used_abbr = take 10 (py_sorted_reverse (\<lambda>x. count (snd x)) used_abbr)"
      by (simp add: sorted_abbr_def)
    show "mset (py_sorted_reverse (\<lambda>x. count (snd x)) used_abbr) = mset used_abbr"
      by (rule mset_py_sorted_reverse)
    show "sorted_wrt (\<lambda>x y. count (snd y) \<le> count (snd x))
            (py_sorted_reverse (\<lambda>x. count (snd x)) used_abbr)"
      by (rule descending_py_sorted_reverse)
    show "filter (\<lambda>x. count (snd x) = n) (py_sorted_reverse (\<lambda>x. count (snd x)) used_abbr)
            = filter (\<lambda>x. count (snd x) = n) used_abbr" for n
      by (rule stable_py_sorted_reverse)
  qed
qed

subsection \<open>The two usage computations\<close>

text \<open>What the run shows apart from the widgets computed from the replaced page texts.\<close>

lemma dashboard_without_replacer:
  "filter (\<lambda>w. \<not> replacer_dependent w)
     (dashboard original_text_pages replaced_pages used_abbr original_size minimized_size reduction)
   = [Text_area ''Before'' (py_join [CHR 0x0A, CHR 0x0A] (take 2 original_text_pages)),
      Metric ''Original Size (KB)'' (real_of_int original_size / 1024),
      Metric ''Minimized Size (KB)'' (real_of_int minimized_size / 1024),
      Metric ''Reduction (%)'' reduction,
      Metric ''Total Replacements'' (real_of_int (total_replacements used_abbr)),
      Bar_chart [''Original'', ''Minimized'']
        [real_of_int original_size / 1024, real_of_int minimized_size / 1024]]
     @ (if used_abbr \<noteq> []
        then [Bar_chart (map fst (sorted_abbr used_abbr))
                (map (\<lambda>(k, v). real_of_int (count v)) (sorted_abbr used_abbr))]
        else [])
     @ [Metric ''Original Time (min)'' (real_of_int (words_total original_text_pages) / 200)]
     @ (if used_abbr \<noteq> []
        then [Table (table_data used_abbr)]
        else [Info ''No abbreviations were used in this document.''])"
  by (simp add: dashboard_def reading_time_metrics_def Let_def replacer_dependent_def)

text \<open>
  C6, as stated, fails. In the run below the Text Replacer substitutes \<open>cat\<close> once, the
  rewriter reports no substitution, and the run ends without an exception; what it shows
  is the list below: the replaced text next to "No abbreviations were used in this
  document.", and no notice of the divergence.
\<close>

theorem divergence_not_reported:
  "snd (text_replacer [''the cat sat''] [(''cat'', ''C'')])
     = [(''cat'', \<lparr>abbr = ''C'', count = 1\<rparr>)]
   \<and> divergent (snd (text_replacer [''the cat sat''] [(''cat'', ''C'')])) []
   \<and> raised (process_document toy_externals ''the cat sat'' False Map.empty) = None
   \<and> shown (process_document toy_externals ''the cat sat'' False Map.empty) =
       [Text_area ''Before'' ''the cat sat'',
        Text_area ''After'' ''the C sat'',
        Metric ''Original Size (KB)'' (11 / 1024),
        Metric ''Minimized Size (KB)'' (11 / 1024),
        Metric ''Reduction (%)'' 0,
        Metric ''Total Replacements'' 0,
        Bar_chart [''Original'', ''Minimized''] [11 / 1024, 11 / 1024],
        Metric ''Original Time (min)'' (3 / 200),
        Metric ''Minimized Time (min)'' (3 / 200),
        Metric ''Time Saved (min)'' 0,
        Info ''No abbreviations were used in this document.'',
        Download_button ''Download Minimized PDF'' ''the cat sat''
          ''minimized_output.pdf'' ''application/pdf'']"
  by (simp add: process_document_def toy_externals_def output_path_of_def py_replace_def
      startswith_def getsize_def percent_reduction_def py_truediv_def dashboard_def
      reading_time_metrics_def words_total_def py_split_def py_isspace_def
      total_replacements_def divergent_def
      text_replacer_def matches_here_def word_follows_def is_word_char_def casefold_def)

text \<open>
  C6, amended. The run does not compare the two computations. What
  \<open>replace_with_abbreviations\<close> returns reaches only the "After" preview and the
  minimized and saved reading times; everything else that is shown (the total of
  replacements, the chart of top abbreviations, the table or the message that no
  abbreviation was used), the exception that ends the run and the files it leaves are
  the same whatever the Text Replacer returns.
\<close>

theorem report_ignores_text_replacer:
  "filter (\<lambda>w. \<not> replacer_dependent w)
       (shown (process_document (ext\<lparr>replace_with_abbreviations := r1\<rparr>) uploaded flag fs0))
     = filter (\<lambda>w. \<not> replacer_dependent w)
       (shown (process_document (ext\<lparr>replace_with_abbreviations := r2\<rparr>) uploaded flag fs0))
   \<and> raised (process_document (ext\<lparr>replace_with_abbreviations := r1\<rparr>) uploaded flag fs0)
     = raised (process_document (ext\<lparr>replace_with_abbreviations := r2\<rparr>) uploaded flag fs0)
   \<and> disk (process_document (ext\<lparr>replace_with_abbreviations := r1\<rparr>) uploaded flag fs0)
     = disk (process_document (ext\<lparr>replace_with_abbreviations := r2\<rparr>) uploaded flag fs0)"
  by (simp add: process_document_def Let_def dashboard_without_replacer
      split: sum.splits prod.splits option.splits)

subsection \<open>The temporary input file\<close>

text \<open>The file system a run leaves: the one holding the new input file, or the one the rewriter returned.\<close>

lemma disk_after_run:
  "disk (process_document ext uploaded flag fs0) = fs0(tmp_name ext @ ''.pdf'' \<mapsto> uploaded)
   \<or> (\<exists>D. disk (process_document ext uploaded flag fs0)
          = snd (abbreviate_pdf ext (fs0(tmp_name ext @ ''.pdf'' \<mapsto> uploaded))
                   (tmp_name ext @ ''.pdf'') (output_path_of (tmp_name ext @ ''.pdf'')) D flag))"
proof (cases "extract_text_from_pdf ext (fs0(tmp_name ext @ ''.pdf'' \<mapsto> uploaded)) (tmp_name ext @ ''.pdf'')")
  case (Inl e)
  then show ?thesis by (simp add: process_document_def Let_def)
next
  case pages: (Inr original_text_pages)
  show ?thesis
  proof (cases "load_abbreviations ext (fs0(tmp_name ext @ ''.pdf'' \<mapsto> uploaded)) ''config/abbreviations.json''")
    case (Inl e)
    with pages show ?thesis by (simp add: process_document_def Let_def)
  next
    case (Inr abbreviations)
    obtain res fs2 where rw: "abbreviate_pdf ext (fs0(tmp_name ext @ ''.pdf'' \<mapsto> uploaded))
        (tmp_name ext @ ''.pdf'') (output_path_of (tmp_name ext @ ''.pdf'')) abbreviations flag
        = (res, fs2)"
      by (cases "abbreviate_pdf ext (fs0(tmp_name ext @ ''.pdf'' \<mapsto> uploaded))
        (tmp_name ext @ ''.pdf'') (output_path_of (tmp_name ext @ ''.pdf'')) abbreviations flag")
    have "disk (process_document ext uploaded flag fs0) = fs2"
      using pages Inr rw
      by (simp add: process_document_def Let_def split: sum.splits option.splits)
    with rw show ?thesis by (metis snd_conv)
  qed
qed

text \<open>
  C7, as stated, fails. When the extraction raises, the run ends with the temporary
  input file still on disk; so it does when the run reaches its end.
\<close>

theorem temporary_file_outlives_run:
  "raised (process_document failing_extraction ''not a pdf'' False Map.empty)
     = Some ExtractionError
   \<and> disk (process_document failing_extraction ''not a pdf'' False Map.empty)
       ''/tmp/tmpk3v9x2ab.pdf'' = Some ''not a pdf''
   \<and> raised (process_document toy_externals ''the cat sat'' False Map.empty) = None
   \<and> disk (process_document toy_externals ''the cat sat'' False Map.empty)
       ''/tmp/tmpk3v9x2ab.pdf'' = Some ''the cat sat''"
  by (simp add: process_document_def failing_extraction_def toy_externals_def output_path_of_def
      py_replace_def startswith_def getsize_def percent_reduction_def py_truediv_def)

text \<open>
  C7, amended. The run never removes the temporary input file: it is created to persist
  (\<open>delete=False\<close>), and on every exit path, whether the run fails in extraction, in
  loading the dictionary, in rewriting, in measuring the sizes or in opening the output,
  or reaches its end, the file is on disk with the uploaded bytes when the run ends,
  provided the rewriter leaves its source file as it is.
\<close>

theorem temporary_file_remains:
  assumes "\<forall>D. snd (abbreviate_pdf ext (fs0(tmp_name ext @ ''.pdf'' \<mapsto> uploaded))
                       (tmp_name ext @ ''.pdf'') (output_path_of (tmp_name ext @ ''.pdf''))
                       D flag) (tmp_name ext @ ''.pdf'') = Some uploaded"
  shows "disk (process_document ext uploaded flag fs0) (tmp_name ext @ ''.pdf'') = Some uploaded"
  using assms disk_after_run [of ext uploaded flag fs0] by auto

theorem temporary_file_remains_witness:
  "(\<forall>D. snd (abbreviate_pdf toy_externals (Map.empty(tmp_name toy_externals @ ''.pdf'' \<mapsto> ''the cat sat''))
              (tmp_name toy_externals @ ''.pdf'')
              (output_path_of (tmp_name toy_externals @ ''.pdf'')) D False)
           (tmp_name toy_externals @ ''.pdf'') = Some ''the cat sat'')
   \<and> disk (process_document toy_externals ''the cat sat'' False Map.empty)
       (tmp_name toy_externals @ ''.pdf'') = Some ''the cat sat''"
proof -
  have h: "\<forall>D. snd (abbreviate_pdf toy_externals (Map.empty(tmp_name toy_externals @ ''.pdf'' \<mapsto> ''the cat sat''))
              (tmp_name toy_externals @ ''.pdf'')
              (output_path_of (tmp_name toy_externals @ ''.pdf'')) D False)
           (tmp_name toy_externals @ ''.pdf'') = Some ''the cat sat''"
    by (simp add: toy_externals_def output_path_of_def py_replace_def startswith_def)
  from h temporary_file_remains [OF h] show ?thesis by simp
qed

subsection \<open>The Text Replacer on the examples of the specification\<close>

text \<open>
  C1. With the dictionary \<open>{"data structure": "DS", "data": "D"}\<close> the page text
  "the data structure is large" becomes "the DS is large", and the usage record has
  exactly one entry, for "data structure" with count 1: "data" is neither substituted nor
  counted. The order of the two entries in the dictionary makes no difference.
\<close>

theorem longest_match_first_example:
  "text_replacer [''the data structure is large'']
       [(''data structure'', ''DS''), (''data'', ''D'')]
     = ([''the DS is large''], [(''data structure'', \<lparr>abbr = ''DS'', count = 1\<rparr>)])
   \<and> text_replacer [''the data structure is large'']
       [(''data'', ''D''), (''data structure'', ''DS'')]
     = ([''the DS is large''], [(''data structure'', \<lparr>abbr = ''DS'', count = 1\<rparr>)])"
  by (simp add: text_replacer_def matches_here_def word_follows_def is_word_char_def
      casefold_def)

subsection \<open>Whole-word boundaries\<close>

text \<open>
  What a pass does, said without the pass: its output is the page with substitutions
  carried out, each at an index where the full form stands as a whole word, and its
  usage record counts these substitutions.
\<close>

lemma best_match_None:
  "best_match D pw t = None \<longleftrightarrow> (\<forall>(k, a) \<in> set D. \<not> matches_here pw k t)"
  by (induction D) (auto split: option.splits if_splits)

lemma best_match_Some:
  "best_match D pw t = Some (k, a) \<Longrightarrow> (k, a) \<in> set D \<and> matches_here pw k t"
  by (induction D arbitrary: k a) (auto split: option.splits if_splits)

lemma starts_with_ci_iff:
  "starts_with_ci k t \<longleftrightarrow>
     length k \<le> length t \<and> map casefold (take (length k) t) = map casefold k"
  by (induction k t rule: starts_with_ci.induct) auto

lemma word_follows_drop:
  "word_follows (drop n xs) \<longleftrightarrow> n < length xs \<and> is_word_char (xs ! n)"
proof (cases "n < length xs")
  case True
  then have "drop n xs = xs ! n # drop (Suc n) xs" by (simp add: Cons_nth_drop_Suc)
  with True show ?thesis by (simp add: word_follows_def)
next
  case False
  then show ?thesis by (simp add: word_follows_def)
qed

lemma matches_here_whole_word:
  assumes "pos \<le> length text"
  shows "matches_here (0 < pos \<and> is_word_char (text ! (pos - 1))) full (drop pos text)
           \<longleftrightarrow> whole_word_at full text pos"
proof -
  have "word_follows (drop (length full) (drop pos text))
          \<longleftrightarrow> pos + length full < length text \<and> is_word_char (text ! (pos + length full))"
    using word_follows_drop [of "pos + length full" "text"] by (simp add: add.commute)
  with assms show ?thesis
    by (auto simp: matches_here_def whole_word_at_def starts_with_ci_iff)
qed

lemma placed_earlier:
  "placed D pos text subs \<Longrightarrow> pos' \<le> pos \<Longrightarrow> placed D pos' text subs"
  by (cases subs) auto

lemma substitute_copy:
  assumes "pos < length text" "placed D (Suc pos) text subs"
  shows "substitute pos text subs = text ! pos # substitute (Suc pos) text subs"
proof (cases subs)
  case Nil
  with assms(1) show ?thesis by (simp add: Cons_nth_drop_Suc)
next
  case (Cons s rest)
  obtain i full ab where s: "s = (i, full, ab)" by (cases s)
  from assms(2) Cons s have "Suc pos \<le> i" by simp
  then have "i - pos = Suc (i - Suc pos)" by simp
  moreover from assms(1) have "drop pos text = text ! pos # drop (Suc pos) text"
    by (simp add: Cons_nth_drop_Suc)
  ultimately show ?thesis using Cons s by simp
qed

lemma scan_placed:
  "T = drop pos text \<Longrightarrow> pw = (0 < pos \<and> is_word_char (text ! (pos - 1))) \<Longrightarrow>
   pos \<le> length text \<Longrightarrow>
   \<exists>subs. placed D pos text subs \<and> scan D pw T u = (substitute pos text subs, counted subs u)"
proof (induction D pw T u arbitrary: pos rule: scan.induct)
  case (1 D pw u)
  have "placed D pos text [] \<and> scan D pw [] u = (substitute pos text [], counted [] u)"
    using "1.prems"(1) by (simp add: counted_def)
  then show ?case by blast
next
  case (2 D pw c cs u)
  note T = "2.prems"(1) and pw = "2.prems"(2) and le = "2.prems"(3)
  from T have lt: "pos < length text" by (metis drop_eq_Nil list.discI not_le)
  from T lt have c: "c = text ! pos" and cs: "cs = drop (Suc pos) text"
    by (simp_all add: Cons_nth_drop_Suc [symmetric])
  show ?case
  proof (cases "best_match D pw (c # cs)")
    case None
    have pw': "is_word_char c = (0 < Suc pos \<and> is_word_char (text ! (Suc pos - 1)))"
      using c by simp
    from lt have le': "Suc pos \<le> length text" by simp
    from "2.IH"(1) [OF None cs pw' le'] obtain subs where
      pl: "placed D (Suc pos) text subs"
      and sc: "scan D (is_word_char c) cs u = (substitute (Suc pos) text subs, counted subs u)"
      by blast
    from pl have "placed D pos text subs" by (rule placed_earlier) simp
    moreover from None sc substitute_copy [OF lt pl] c
    have "scan D pw (c # cs) u = (substitute pos text subs, counted subs u)" by simp
    ultimately show ?thesis by blast
  next
    case (Some hit)
    obtain full ab where hit: "hit = (full, ab)" by (cases hit)
    from best_match_Some [of D pw "c # cs" full ab] Some hit
    have mem: "(full, ab) \<in> set D" and m: "matches_here pw full (c # cs)" by simp_all
    from m T pw matches_here_whole_word [OF le, of full]
    have ww: "whole_word_at full text pos" by simp
    then have ne: "full \<noteq> []" and le2: "pos + length full \<le> length text"
      by (simp_all add: whole_word_at_def)
    have T2: "drop (length full) (c # cs) = drop (pos + length full) text"
      using T by (simp add: add.commute)
    from ne have idx: "pos + (length full - 1) = pos + length full - 1"
      by (cases full) simp_all
    have "(c # cs) ! (length full - 1) = text ! (pos + (length full - 1))"
      using T le by (simp add: nth_drop)
    with idx ne have pw2: "is_word_char ((c # cs) ! (length full - 1))
        = (0 < pos + length full \<and> is_word_char (text ! (pos + length full - 1)))"
      by simp
    from "2.IH"(2) [OF Some hit [symmetric] T2 pw2 le2] obtain subs where
      pl: "placed D (pos + length full) text subs"
      and sc: "scan D (is_word_char ((c # cs) ! (length full - 1))) (drop (length full) (c # cs))
                 (bump full ab u)
               = (substitute (pos + length full) text subs, counted subs (bump full ab u))"
      by blast
    have "placed D pos text ((pos, full, ab) # subs)" using pl mem ww by simp
    moreover from Some hit sc
    have "scan D pw (c # cs) u
            = (substitute pos text ((pos, full, ab) # subs), counted ((pos, full, ab) # subs) u)"
      by (simp add: counted_def)
    ultimately show ?thesis by blast
  qed
qed

lemma replace_pages_placed:
  "\<exists>subss. list_all2 (placed D 0) pages subss
     \<and> replace_pages D pages u
         = (map (\<lambda>(page, subs). substitute 0 page subs) (zip pages subss),
            counted (concat subss) u)"
proof (induction pages arbitrary: u)
  case Nil
  have "list_all2 (placed D 0) [] []
     \<and> replace_pages D [] u
         = (map (\<lambda>(page, subs). substitute 0 page subs) (zip [] []), counted (concat []) u)"
    by (simp add: counted_def)
  then show ?case by blast
next
  case (Cons p ps)
  from scan_placed [of p 0 p False D u] obtain subs where
    pl: "placed D 0 p subs" and sc: "scan D False p u = (substitute 0 p subs, counted subs u)"
    by auto
  from Cons.IH [of "counted subs u"] obtain subss where
    pls: "list_all2 (placed D 0) ps subss"
    and rp: "replace_pages D ps (counted subs u)
         = (map (\<lambda>(page, subs). substitute 0 page subs) (zip ps subss),
            counted (concat subss) (counted subs u))"
    by blast
  have "list_all2 (placed D 0) (p # ps) (subs # subss)" using pl pls by simp
  moreover have "replace_pages D (p # ps) u
         = (map (\<lambda>(page, subs). substitute 0 page subs) (zip (p # ps) (subs # subss)),
            counted (concat (subs # subss)) u)"
    using sc rp by (simp add: counted_def)
  ultimately show ?case by blast
qed

text \<open>
  C2. The Text Replacer substitutes only at whole-word (or phrase) boundaries: for every
  dictionary and every page sequence, each output page is the input page with
  abbreviations in the place of full forms of the dictionary, each at an index where the
  full form stands with no word character directly before it and none directly after
  it, and the usage record counts exactly these substitutions. With the dictionary
  \<open>{"cat": "C"}\<close>, "category" is returned unchanged with an empty usage record, and so
  is "bobcat", while "the cat sat" becomes "the C sat" with "cat" counted once.
\<close>

theorem substitutes_only_at_word_boundaries:
  "(\<exists>subss. list_all2 (placed D 0) pages subss
      \<and> text_replacer pages D
          = (map (\<lambda>(page, subs). substitute 0 page subs) (zip pages subss),
             counted (concat subss) []))
   \<and> text_replacer [''category''] [(''cat'', ''C'')] = ([''category''], [])
   \<and> text_replacer [''bobcat''] [(''cat'', ''C'')] = ([''bobcat''], [])
   \<and> text_replacer [''the cat sat''] [(''cat'', ''C'')]
     = ([''the C sat''], [(''cat'', \<lparr>abbr = ''C'', count = 1\<rparr>)])"
proof (intro conjI)
  show "\<exists>subss. list_all2 (placed D 0) pages subss
      \<and> text_replacer pages D
          = (map (\<lambda>(page, subs). substitute 0 page subs) (zip pages subss),
             counted (concat subss) [])"
    using replace_pages_placed [of D pages "[]"] by (simp add: text_replacer_def)
  show "text_replacer [''category''] [(''cat'', ''C'')] = ([''category''], [])"
    by (simp add: text_replacer_def matches_here_def word_follows_def is_word_char_def
        casefold_def)
  show "text_replacer [''bobcat''] [(''cat'', ''C'')] = ([''bobcat''], [])"
    by (simp add: text_replacer_def matches_here_def word_follows_def is_word_char_def
        casefold_def)
  show "text_replacer [''the cat sat''] [(''cat'', ''C'')]
     = ([''the C sat''], [(''cat'', \<lparr>abbr = ''C'', count = 1\<rparr>)])"
    by (simp add: text_replacer_def matches_here_def word_follows_def is_word_char_def
        casefold_def)
qed

theorem substitutes_only_at_word_boundaries_witness:
  "whole_word_at ''cat'' ''the cat sat'' 4
   \<and> \<not> whole_word_at ''cat'' ''bobcat'' 3
   \<and> \<not> whole_word_at ''cat'' ''category'' 0
   \<and> placed [(''cat'', ''C'')] 0 ''the cat sat'' [(4, ''cat'', ''C'')]
   \<and> substitute 0 ''the cat sat'' [(4, ''cat'', ''C'')] = ''the C sat''
   \<and> (\<exists>subss. list_all2 (placed [(''cat'', ''C'')] 0) [''bobcat'', ''the cat sat''] subss
        \<and> text_replacer [''bobcat'', ''the cat sat''] [(''cat'', ''C'')]
            = (map (\<lambda>(page, subs). substitute 0 page subs)
                 (zip [''bobcat'', ''the cat sat''] subss),
               counted (concat subss) []))"
proof -
  have at: "whole_word_at ''cat'' ''the cat sat'' 4"
    and inside: "\<not> whole_word_at ''cat'' ''bobcat'' 3"
    and before: "\<not> whole_word_at ''cat'' ''category'' 0"
    by (simp_all add: whole_word_at_def is_word_char_def casefold_def)
  have sub: "substitute 0 ''the cat sat'' [(4, ''cat'', ''C'')] = ''the C sat''"
    by simp
  from substitutes_only_at_word_boundaries
         [of "[(''cat'', ''C'')]" "[''bobcat'', ''the cat sat'']"]
  show ?thesis using at inside before sub by simp
qed

subsection \<open>Replacing twice\<close>














subsection \<open>A sufficient condition on the dictionary\<close>

text \<open>
  A condition on the dictionary alone under which replacing twice changes nothing more,
  whatever the pages: in the output of a pass, a full form cannot match across or next
  to a written abbreviation, so a match in the output is a match in the input, which
  the pass has replaced already. The condition is sufficient, not necessary.
\<close>

lemma casefold_word:
  "casefold x = casefold y \<Longrightarrow> is_word_char x = is_word_char y"
  by (auto simp: casefold_def is_word_char_def Let_def split: if_splits)

lemma starts_with_ci_Nil: "starts_with_ci a [] \<longleftrightarrow> a = []"
  by (cases a) simp_all

lemma starts_with_ci_append:
  "starts_with_ci k (a @ X) \<Longrightarrow> length a \<le> length k \<Longrightarrow>
     starts_with_ci a k \<and> starts_with_ci (drop (length a) k) X"
proof (induction a arbitrary: k)
  case Nil
  then show ?case by simp
next
  case (Cons c a)
  then obtain x k2 where k: "k = x # k2" by (cases k) auto
  with Cons show ?case by simp
qed

lemma occurs_from_append:
  "matches_here (if k0 = [] then pw else is_word_char (last k0)) a k' \<Longrightarrow>
     occurs_from pw a (k0 @ k')"
proof (induction k0 arbitrary: pw)
  case Nil
  then show ?case by (cases k') (auto simp: matches_here_def starts_with_ci_Nil)
next
  case (Cons x k0)
  have "occurs_from (is_word_char x) a (k0 @ k')"
    using Cons.prems by (intro Cons.IH) (simp split: if_splits)
  then show ?case by simp
qed

lemma scan_fst_any:
  "fst (scan D pw T u) = fst (scan D pw T u')"
proof (induction D pw T u arbitrary: u' rule: scan.induct)
  case (1 D pw u)
  show ?case by simp
next
  case (2 D pw c cs u)
  show ?case
  proof (cases "best_match D pw (c # cs)")
    case None
    from "2.IH"(1) [OF None, of u'] show ?thesis
      using None by (simp add: case_prod_unfold)
  next
    case (Some hit)
    obtain k a where hit: "hit = (k, a)" by (cases hit)
    from "2.IH"(2) [OF Some hit [symmetric], of "bump k a u'"] show ?thesis
      using Some hit by (simp add: case_prod_unfold)
  qed
qed

lemma scan_out_None:
  "best_match D pw (c # cs) = None \<Longrightarrow>
     fst (scan D pw (c # cs) u) = c # fst (scan D (is_word_char c) cs u)"
  by (simp add: case_prod_unfold)

lemma scan_out_Some:
  "best_match D pw (c # cs) = Some (k, a) \<Longrightarrow>
     fst (scan D pw (c # cs) u)
       = a @ fst (scan D (is_word_char ((c # cs) ! (length k - 1))) (drop (length k) (c # cs)) u)"
  using scan_fst_any [of D _ _ "bump k a u" u]
  by (simp add: case_prod_unfold)

lemma apart_entry:
  "abbreviations_apart D \<Longrightarrow> (k, a) \<in> set D \<Longrightarrow>
     k \<noteq> [] \<and> is_word_char (hd k) \<and> is_word_char (last k) \<and> a \<noteq> [] \<and> (\<forall>c \<in> set a. is_word_char c)"
  by (auto simp: abbreviations_apart_def list_all_iff)

lemma apart_occurs:
  "abbreviations_apart D \<Longrightarrow> (k, a) \<in> set D \<Longrightarrow> (k1, a1) \<in> set D \<Longrightarrow> \<not> occurs_as_word a1 k"
  by (auto simp: abbreviations_apart_def list_all_iff)

lemma starts_with_ci_last:
  "starts_with_ci k t \<Longrightarrow> k \<noteq> [] \<Longrightarrow> casefold (last k) = casefold (t ! (length k - 1))"
proof (induction k t rule: starts_with_ci.induct)
  case (3 k ks c cs)
  then show ?case by (cases ks) auto
qed simp_all

lemma abbreviation_blocks_match:
  assumes ok: "abbreviations_apart D"
    and kin: "(k, a) \<in> set D" and a1in: "(k1, a1) \<in> set D"
    and k: "k = k0 @ k'"
    and bd: "k0 = [] \<or> \<not> is_word_char (last k0)"
    and sw: "starts_with_ci k' (a1 @ X)"
    and after: "\<not> word_follows (drop (length k') (a1 @ X))"
    and X: "\<not> word_follows X"
  shows False
proof -
  from apart_entry [OF ok a1in] have a1: "a1 \<noteq> []" "\<forall>c \<in> set a1. is_word_char c" by simp_all
  have len: "length a1 \<le> length k'"
  proof (rule ccontr)
    assume "\<not> length a1 \<le> length k'"
    then have lt: "length k' < length a1" by simp
    then obtain y ys where d: "drop (length k') a1 = y # ys"
      by (cases "drop (length k') a1") auto
    then have "y \<in> set a1" by (metis in_set_dropD list.set_intros(1))
    with a1 have "is_word_char y" by simp
    moreover from lt d have "drop (length k') (a1 @ X) = y # ys @ X" by simp
    ultimately have "word_follows (drop (length k') (a1 @ X))" by (simp add: word_follows_def)
    with after show False by simp
  qed
  from starts_with_ci_append [OF sw len]
  have s1: "starts_with_ci a1 k'" and s2: "starts_with_ci (drop (length a1) k') X" by simp_all
  have "\<not> word_follows (drop (length a1) k')"
  proof (cases "drop (length a1) k'")
    case Nil
    then show ?thesis by (simp add: word_follows_def)
  next
    case (Cons x xs)
    with s2 obtain c X' where Xc: "X = c # X'" and cf: "casefold x = casefold c"
      by (cases X) auto
    from X Xc have "\<not> is_word_char c" by (simp add: word_follows_def)
    with cf have "\<not> is_word_char x" using casefold_word by blast
    with Cons show ?thesis by (simp add: word_follows_def)
  qed
  with s1 a1 have "matches_here False a1 k'" by (simp add: matches_here_def)
  with bd have "matches_here (if k0 = [] then False else is_word_char (last k0)) a1 k'" by auto
  then have "occurs_from False a1 (k0 @ k')" by (rule occurs_from_append)
  with k have "occurs_as_word a1 k" by (simp add: occurs_as_word_def)
  with apart_occurs [OF ok kin a1in] show False by simp
qed

lemma scan_head:
  assumes ok: "abbreviations_apart D"
  shows "word_follows (fst (scan D pw T u)) = word_follows T"
proof (cases T)
  case Nil
  then show ?thesis by simp
next
  case (Cons c cs)
  show ?thesis
  proof (cases "best_match D pw (c # cs)")
    case None
    with Cons show ?thesis by (simp add: case_prod_unfold word_follows_def)
  next
    case (Some hit)
    obtain k1 a1 where hit: "hit = (k1, a1)" by (cases hit)
    from best_match_Some [of D pw "c # cs" k1 a1] Some hit
    have in1: "(k1, a1) \<in> set D" and m: "matches_here pw k1 (c # cs)" by simp_all
    from apart_entry [OF ok in1] obtain x xs y ys where
      k1: "k1 = x # xs" and wx: "is_word_char x" and a1: "a1 = y # ys" and wy: "is_word_char y"
      by (cases k1; cases a1) auto
    from m k1 have "casefold x = casefold c" by (simp add: matches_here_def)
    with wx have "is_word_char c" using casefold_word by blast
    with Cons Some hit a1 wy show ?thesis
      by (simp add: case_prod_unfold word_follows_def)
  qed
qed

lemma match_reflects:
  "abbreviations_apart D \<Longrightarrow> (k, a) \<in> set D \<Longrightarrow> k = k0 @ k' \<Longrightarrow>
   pw = (k0 \<noteq> [] \<and> is_word_char (last k0)) \<Longrightarrow>
   starts_with_ci k' (fst (scan D pw T u)) \<Longrightarrow>
   \<not> word_follows (drop (length k') (fst (scan D pw T u))) \<Longrightarrow>
   starts_with_ci k' T \<and> \<not> word_follows (drop (length k') T)"
proof (induction D pw T u arbitrary: k0 k' rule: scan.induct)
  case (1 D pw u)
  then show ?case by (simp add: starts_with_ci_Nil)
next
  case (2 D pw c cs u)
  note ok = "2.prems"(1) and kin = "2.prems"(2) and k = "2.prems"(3) and pw = "2.prems"(4)
    and sw = "2.prems"(5) and after = "2.prems"(6)
  show ?case
  proof (cases k')
    case Nil
    with after scan_head [OF ok, of pw "c # cs" u] show ?thesis by simp
  next
    case (Cons x k'')
    show ?thesis
    proof (cases "best_match D pw (c # cs)")
      case None
      let ?O' = "fst (scan D (is_word_char c) cs u)"
      from None have out: "fst (scan D pw (c # cs) u) = c # ?O'" by (rule scan_out_None)
      from sw out Cons have cf: "casefold x = casefold c" and sw': "starts_with_ci k'' ?O'"
        by simp_all
      from after out Cons have after': "\<not> word_follows (drop (length k'') ?O')" by simp
      have pw': "is_word_char c = (k0 @ [x] \<noteq> [] \<and> is_word_char (last (k0 @ [x])))"
        using casefold_word [OF cf] by simp
      from k Cons have k2: "k = (k0 @ [x]) @ k''" by simp
      from "2.IH"(1) [OF None ok kin k2 pw' sw' after']
      have "starts_with_ci k'' cs \<and> \<not> word_follows (drop (length k'') cs)" .
      with cf Cons show ?thesis by simp
    next
      case (Some hit)
      obtain k1 a1 where hit: "hit = (k1, a1)" by (cases hit)
      from best_match_Some [of D pw "c # cs" k1 a1] Some hit
      have in1: "(k1, a1) \<in> set D" and m: "matches_here pw k1 (c # cs)" by simp_all
      let ?X = "fst (scan D (is_word_char ((c # cs) ! (length k1 - 1))) (drop (length k1) (c # cs)) u)"
      from Some hit have out: "fst (scan D pw (c # cs) u) = a1 @ ?X"
        using scan_out_Some by simp
      from m have "\<not> pw" by (simp add: matches_here_def)
      with pw have bd: "k0 = [] \<or> \<not> is_word_char (last k0)" by auto
      from m have "\<not> word_follows (drop (length k1) (c # cs))" by (simp add: matches_here_def)
      then have X: "\<not> word_follows ?X" using scan_head [OF ok] by simp
      from sw out have sw1: "starts_with_ci k' (a1 @ ?X)" by simp
      from after out have after1: "\<not> word_follows (drop (length k') (a1 @ ?X))" by simp
      from abbreviation_blocks_match [OF ok kin in1 k bd sw1 after1 X] show ?thesis ..
    qed
  qed
qed

lemma scan_word_run:
  "list_all is_word_char a \<Longrightarrow>
     scan D True (a @ X) u = (case scan D True X u of (out, u') \<Rightarrow> (a @ out, u'))"
proof (induction a)
  case Nil
  show ?case by (simp add: case_prod_unfold)
next
  case (Cons y ys)
  have "best_match D True (y # ys @ X) = None"
    by (simp add: best_match_None matches_here_def)
  with Cons show ?case by (simp add: case_prod_unfold)
qed

lemma scan_abbreviation:
  assumes "a \<noteq> []" "list_all is_word_char a" "best_match D False (a @ X) = None"
  shows "scan D False (a @ X) u = (case scan D True X u of (out, u') \<Rightarrow> (a @ out, u'))"
proof -
  from assms(1) obtain y ys where a: "a = y # ys" by (cases a) auto
  with assms(2) have wy: "is_word_char y" and wys: "list_all is_word_char ys" by simp_all
  from assms(3) a have "scan D False (a @ X) u
      = (case scan D True (ys @ X) u of (out, u') \<Rightarrow> (y # out, u'))"
    using wy by simp
  with scan_word_run [OF wys, of D X u] a show ?thesis by (simp add: case_prod_unfold)
qed

lemma scan_idempotent:
  "abbreviations_apart D \<Longrightarrow>
     scan D pw (fst (scan D pw T u)) u' = (fst (scan D pw T u), u')"
proof (induction D pw T u arbitrary: u' rule: scan.induct)
  case (1 D pw u)
  show ?case by simp
next
  case (2 D pw c cs u)
  note ok = "2.prems"
  show ?case
  proof (cases "best_match D pw (c # cs)")
    case None
    let ?O' = "fst (scan D (is_word_char c) cs u)"
    from None have out: "fst (scan D pw (c # cs) u) = c # ?O'" by (rule scan_out_None)
    have nm: "best_match D pw (c # ?O') = None"
      unfolding best_match_None
    proof (intro ballI, clarify)
      fix k a assume kin: "(k, a) \<in> set D" and m: "matches_here pw k (c # ?O')"
      from m have npw0: "\<not> pw" and kne: "k \<noteq> []"
        and sw0: "starts_with_ci k (c # ?O')"
        and after0: "\<not> word_follows (drop (length k) (c # ?O'))"
        by (simp_all add: matches_here_def)
      from npw0 have npw: "pw = (([]::string) \<noteq> [] \<and> is_word_char (last []))" by simp
      from sw0 have sw: "starts_with_ci k (fst (scan D pw (c # cs) u))" unfolding out .
      from after0 have after: "\<not> word_follows (drop (length k) (fst (scan D pw (c # cs) u)))"
        unfolding out .
      have k0: "k = [] @ k" by simp
      from match_reflects [OF ok kin k0 npw sw after] m kne
      have "matches_here pw k (c # cs)" by (simp add: matches_here_def)
      with None kin show False by (auto simp: best_match_None)
    qed
    from "2.IH"(1) [OF None ok, of u'] nm out show ?thesis by simp
  next
    case (Some hit)
    obtain k1 a1 where hit: "hit = (k1, a1)" by (cases hit)
    from best_match_Some [of D pw "c # cs" k1 a1] Some hit
    have in1: "(k1, a1) \<in> set D" and m: "matches_here pw k1 (c # cs)" by simp_all
    let ?pw1 = "is_word_char ((c # cs) ! (length k1 - 1))"
    let ?X = "fst (scan D ?pw1 (drop (length k1) (c # cs)) (bump k1 a1 u))"
    from Some hit have out: "fst (scan D pw (c # cs) u) = a1 @ ?X"
      by (simp add: case_prod_unfold)
    from apart_entry [OF ok in1] have k1ne: "k1 \<noteq> []" and wl: "is_word_char (last k1)"
      and a1ne: "a1 \<noteq> []" and wa: "list_all is_word_char a1"
      by (simp_all add: list_all_iff)
    from m have npw: "\<not> pw" and sw1: "starts_with_ci k1 (c # cs)"
      and aft: "\<not> word_follows (drop (length k1) (c # cs))"
      by (simp_all add: matches_here_def)
    from starts_with_ci_last [OF sw1 k1ne] wl have pw1: "?pw1" using casefold_word by blast
    from aft have X: "\<not> word_follows ?X" using scan_head [OF ok] by simp
    have nm: "best_match D False (a1 @ ?X) = None"
      unfolding best_match_None
    proof (intro ballI, clarify)
      fix k a assume kin: "(k, a) \<in> set D" and mm: "matches_here False k (a1 @ ?X)"
      from mm have sw: "starts_with_ci k (a1 @ ?X)"
        and after: "\<not> word_follows (drop (length k) (a1 @ ?X))"
        by (simp_all add: matches_here_def)
      have k0: "k = [] @ k" by simp
      have bd: "([]::string) = [] \<or> \<not> is_word_char (last [])" by simp
      from abbreviation_blocks_match [OF ok kin in1 k0 bd sw after X] show False .
    qed
    from "2.IH"(2) [OF Some hit [symmetric] ok, of u'] pw1
    have ih: "scan D True ?X u' = (?X, u')" by simp
    from scan_abbreviation [OF a1ne wa nm, of u'] ih
    have "scan D False (a1 @ ?X) u' = (a1 @ ?X, u')" by simp
    with npw out show ?thesis by simp
  qed
qed

lemma replace_pages_idempotent:
  "abbreviations_apart D \<Longrightarrow>
     replace_pages D (fst (replace_pages D P u)) u' = (fst (replace_pages D P u), u')"
proof (induction P arbitrary: u u')
  case Nil
  show ?case by simp
next
  case (Cons p ps)
  from scan_idempotent [OF Cons.prems, of False p u u']
       Cons.IH [OF Cons.prems, of "snd (scan D False p u)" u']
  show ?case by (simp add: case_prod_unfold)
qed

lemma apart_dictionary_idempotent:
  assumes "abbreviations_apart D"
  shows "text_replacer (fst (text_replacer P D)) D = (fst (text_replacer P D), [])"
  using replace_pages_idempotent [OF assms, of P "[]" "[]"]
  by (simp add: text_replacer_def)

lemma apart_dictionary_example:
  "abbreviations_apart [(''artificial intelligence'', ''AI''), (''data structure'', ''DS'')]
   \<and> \<not> abbreviations_apart [(''NN architecture search'', ''NAS''), (''neural network'', ''NN'')]"
  by (simp add: abbreviations_apart_def occurs_as_word_def matches_here_def word_follows_def
      is_word_char_def casefold_def)

end
